theory Spec2Isabelle
  imports Main "HOL-Library.Char_ord"
begin

section \<open>Strings\<close>

text \<open>
  A JavaScript string is a sequence of code units. The model has the code units 0 to 255
  (Basic Latin and Latin-1 Supplement), as HOL characters, and gives the three primitives
  of the platform that the program applies to strings their values on that range.

  \<open>String.prototype.toLowerCase\<close> maps \<open>A-Z\<close> (65 to 90) and the capital letters
  U+00C0 to U+00DE, except the multiplication sign U+00D7, to the code unit 32 above;
  every other code unit of the range stays.
\<close>

definition toLowerCase_char :: "char \<Rightarrow> char" where
  "toLowerCase_char c =
     (let n = (of_char c :: nat) in
      if (65 \<le> n \<and> n \<le> 90) \<or> (192 \<le> n \<and> n \<le> 222 \<and> n \<noteq> 215)
      then char_of (n + 32) else c)"

definition toLowerCase :: "string \<Rightarrow> string" where
  "toLowerCase s = map toLowerCase_char s"

text \<open>
  The canonicalisation of a regular expression with the \<open>i\<close> flag and no \<open>u\<close> flag
  maps a code unit through \<open>toUpperCase\<close>, unless the result is not one code unit
  (U+00DF gives "SS") or leaves the range above 127 for the one below. \<open>a-z\<close> and the
  small letters U+00E0 to U+00FE, except the division sign U+00F7, go to the code unit 32
  below; the micro sign U+00B5 goes to U+039C and U+00FF to U+0178, which are outside the
  range of the model, so the result is a number.
\<close>

definition canonicalize :: "char \<Rightarrow> nat" where
  "canonicalize c =
     (let n = (of_char c :: nat) in
      if (97 \<le> n \<and> n \<le> 122) \<or> (224 \<le> n \<and> n \<le> 254 \<and> n \<noteq> 247) then n - 32
      else if n = 181 then 924
      else if n = 255 then 376
      else n)"

text \<open>
  \<open>String.prototype.trim\<close> removes white space and line terminators: in the range of
  the model TAB, LF, VT, FF, CR (9 to 13), SPACE (32) and NO-BREAK SPACE (160).
\<close>

definition isWhiteSpace :: "char \<Rightarrow> bool" where
  "isWhiteSpace c =
     (let n = (of_char c :: nat) in n = 32 \<or> (9 \<le> n \<and> n \<le> 13) \<or> n = 160)"

definition trim :: "string \<Rightarrow> string" where
  "trim s = rev (dropWhile isWhiteSpace (rev (dropWhile isWhiteSpace s)))"

section \<open>Phrase matcher: \<open>HighlightedText\<close> of MarkdownRenderer.tsx\<close>

text \<open>
  An element of \<open>segments\<close> is either a string still to be scanned or a \<open>mark\<close>
  node wrapping the matched text.
\<close>

datatype segment = Str string | Mark string

fun segment_text :: "segment \<Rightarrow> string" where
  "segment_text (Str s) = s"
| "segment_text (Mark s) = s"

fun isMatch :: "segment \<Rightarrow> bool" where
  "isMatch (Str s) = False"
| "isMatch (Mark s) = True"

text \<open>
  \<open>new RegExp(`(${escaped})`, 'gi')\<close>: every syntax character of \<open>target\<close> is escaped,
  so the expression matches the code units of \<open>target\<close> literally, each compared after
  canonicalisation. \<open>regex_match_at target s\<close> is a match anchored at the start of \<open>s\<close>.
\<close>

definition regex_match_at :: "string \<Rightarrow> string \<Rightarrow> bool" where
  "regex_match_at target s =
     (length target \<le> length s \<and>
      map canonicalize (take (length target) s) = map canonicalize target)"

text \<open>
  \<open>seg.split(regex)\<close> with one capturing group: the pieces between the matches,
  interleaved with the matched texts. \<open>acc\<close> is the piece read so far (from \<open>p\<close> to
  \<open>q\<close> in the language definition), \<open>s\<close> the rest from \<open>q\<close>. An empty match at the
  start of a piece is skipped, as the definition of \<open>split\<close> says.
\<close>

function split_from :: "string \<Rightarrow> string \<Rightarrow> string \<Rightarrow> string list" where
  "split_from target acc s =
     (if s = [] then [acc]
      else if regex_match_at target s \<and> \<not> (target = [] \<and> acc = [])
        then acc # take (length target) s # split_from target [] (drop (length target) s)
        else split_from target (acc @ [hd s]) (tl s))"
  by pat_completeness auto
termination
  by (relation "measure (\<lambda>(target, acc, s). 2 * length s + (if acc = [] then 0 else 1))")
     (auto simp: regex_match_at_def neq_Nil_conv)

declare split_from.simps [simp del]

definition js_split :: "string \<Rightarrow> string \<Rightarrow> string list" where
  "js_split seg target =
     (if seg = [] then (if target = [] then [] else [seg]) else split_from target [] seg)"

definition classify :: "string \<Rightarrow> string \<Rightarrow> segment" where
  "classify target part =
     (if toLowerCase part = toLowerCase target then Mark part else Str part)"

definition newSegments :: "string \<Rightarrow> string list \<Rightarrow> segment list" where
  "newSegments target parts = map (classify target) (filter (\<lambda>part. part \<noteq> []) parts)"

text \<open>
  The \<open>for\<close> loop over \<open>segments\<close>: \<open>splice(i, 1, ...newSegments)\<close> replaces element
  \<open>i\<close>, then \<open>i += newSegments.length - 1\<close> and the loop's \<open>i++\<close> move past the
  inserted elements.
\<close>

function scanSegments :: "string \<Rightarrow> segment list \<Rightarrow> nat \<Rightarrow> segment list" where
  "scanSegments target segments i =
     (if i < length segments then
        (case segments ! i of
           Str seg \<Rightarrow>
             (let parts = js_split seg target in
              if length parts > 1 then
                (let new = newSegments target parts in
                 scanSegments target (take i segments @ new @ drop (Suc i) segments)
                   (i + length new))
              else scanSegments target segments (Suc i))
         | Mark m \<Rightarrow> scanSegments target segments (Suc i))
      else segments)"
  by pat_completeness auto
termination
  by (relation "measure (\<lambda>(target, segments, i). length segments - i)") auto

declare scanSegments.simps [simp del]

definition sortedTargets :: "string list \<Rightarrow> string list" where
  "sortedTargets allTargets = sort_key (\<lambda>t. - int (length t)) allTargets"

definition processTarget :: "string \<Rightarrow> segment list \<Rightarrow> segment list" where
  "processTarget target segments =
     (if target = [] \<or> length (trim target) < 3 then segments
      else scanSegments target segments 0)"

definition HighlightedText :: "string \<Rightarrow> string list \<Rightarrow> segment list" where
  "HighlightedText text allTargets =
     (if text = [] \<or> allTargets = [] then [Str text]
      else fold processTarget (sortedTargets allTargets) [Str text])"

text \<open>
  The body of the loop for one element, used to describe the result of the scan: a string
  that contains the target is replaced by its pieces, anything else stays.
\<close>

fun scanOne :: "string \<Rightarrow> segment \<Rightarrow> segment list" where
  "scanOne target (Str seg) =
     (let parts = js_split seg target in
      if length parts > 1 then newSegments target parts else [Str seg])"
| "scanOne target (Mark m) = [Mark m]"

text \<open>
  The character positions of the rendered text that lie inside a \<open>mark\<close>, counted from
  \<open>off\<close>, segment after segment.
\<close>

fun matchedPositions :: "nat \<Rightarrow> segment list \<Rightarrow> nat list" where
  "matchedPositions off [] = []"
| "matchedPositions off (Str s # segs) = matchedPositions (off + length s) segs"
| "matchedPositions off (Mark s # segs) =
     [off ..< off + length s] @ matchedPositions (off + length s) segs"

section \<open>Data model: types.ts\<close>

record HandbookDoc =
  doc_id :: string
  doc_title :: string
  doc_category :: string
  doc_content :: string

record SourceChunk =
  docId :: string
  snippet :: string

datatype role = User | Assistant

text \<open>
  \<open>sources\<close> and \<open>highlights\<close> are optional fields; \<open>highlights\<close> is a
  \<open>Record<string, string[]>\<close> from document ids to phrases. \<open>timestamp\<close> and
  \<open>updatedAt\<close> are dates, kept as numbers.
\<close>

record Message =
  msg_id :: string
  msg_role :: role
  msg_content :: string
  sources :: "SourceChunk list option"
  highlights :: "(string \<rightharpoonup> string list) option"
  timestamp :: nat

record Chat =
  chat_id :: string
  chat_title :: string
  messages :: "Message list"
  updatedAt :: nat
  isLoading :: "bool option"
  hasUnreadResponse :: "bool option"
  isCustomTitle :: "bool option"

datatype ViewMode = Chunk | Full

record SelectedSource =
  sel_sources :: "SourceChunk list"
  currentDocId :: string
  viewMode :: ViewMode
  contextMessageId :: string

section \<open>Highlight target resolver: SourceViewer.tsx\<close>

text \<open>
  The entry of a message for a document: the own property of its \<open>highlights\<close> object
  with the document id as key, which only \<open>updateMessageHighlights\<close> creates.
\<close>

definition highlightsEntry :: "Message \<Rightarrow> string \<Rightarrow> string list option" where
  "highlightsEntry m d = (case highlights m of None \<Rightarrow> None | Some h \<Rightarrow> h d)"

text \<open>
  Reading a property, \<open>message.highlights?.[docId]\<close>, is more than that: \<open>highlights\<close>
  is a plain object, and a key that it does not own is looked up in \<open>Object.prototype\<close>.
  The names below are the properties that every plain object inherits; their values are
  functions, and for \<open>__proto__\<close> the prototype object itself: none is undefined, none
  can be iterated.
\<close>

definition objectPrototypeKeys :: "string list" where
  "objectPrototypeKeys =
     [''constructor'', ''hasOwnProperty'', ''isPrototypeOf'', ''propertyIsEnumerable'',
      ''toLocaleString'', ''toString'', ''valueOf'', ''__proto__'', ''__defineGetter__'',
      ''__defineSetter__'', ''__lookupGetter__'', ''__lookupSetter__'']"

datatype property_value = Undefined | StringArray "string list" | Inherited

definition readHighlights :: "Message \<Rightarrow> string \<Rightarrow> property_value" where
  "readHighlights m d =
     (case highlights m of
        None \<Rightarrow> Undefined
      | Some h \<Rightarrow>
          (case h d of
             Some hs \<Rightarrow> StringArray hs
           | None \<Rightarrow> if d \<in> set objectPrototypeKeys then Inherited else Undefined))"

text \<open>\<open>activeChat?.messages.find(m => m.id === contextMessageId)\<close>\<close>

definition contextMessage :: "Chat option \<Rightarrow> string \<Rightarrow> Message option" where
  "contextMessage activeChat cid =
     (case activeChat of
        None \<Rightarrow> None
      | Some c \<Rightarrow> find (\<lambda>m. msg_id m = cid) (messages c))"

definition relevanceHighlights :: "Chat option \<Rightarrow> string \<Rightarrow> string \<Rightarrow> property_value" where
  "relevanceHighlights activeChat cid d =
     (case contextMessage activeChat cid of
        None \<Rightarrow> Undefined
      | Some m \<Rightarrow> readHighlights m d)"

definition currentDocCitations :: "SourceChunk list \<Rightarrow> string \<Rightarrow> SourceChunk list" where
  "currentDocCitations srcs d = filter (\<lambda>s. docId s = d) srcs"

text \<open>
  \<open>Array.from(new Set(xs))\<close>: the elements of \<open>xs\<close> in the order of their first
  occurrence. \<open>acc\<close> is the set built so far, in insertion order.
\<close>

fun newSet :: "string list \<Rightarrow> string list \<Rightarrow> string list" where
  "newSet acc [] = acc"
| "newSet acc (x # xs) = newSet (if x \<in> set acc then acc else acc @ [x]) xs"

text \<open>
  The memoised computation of the targets. Only \<open>undefined\<close> is falsy here; spreading
  a value that cannot be iterated throws a \<open>TypeError\<close>.
\<close>

datatype js_error = TypeError

definition allHighlightTargets ::
  "SourceChunk list \<Rightarrow> property_value \<Rightarrow> js_error + string list" where
  "allHighlightTargets cites rel =
     (case rel of
        Undefined \<Rightarrow> Inr []
      | StringArray hs \<Rightarrow>
          (let explicitSnippets = map snippet cites in
           Inr (filter (\<lambda>t. t \<noteq> [] \<and> length (trim t) > 3)
                  (newSet [] (explicitSnippets @ hs))))
      | Inherited \<Rightarrow> Inl TypeError)"

text \<open>
  The viewer's computation from its properties \<open>activeChat\<close> and \<open>source\<close>; a missing
  \<open>source\<close> gives the defaults of the destructuring.
\<close>

definition viewerHighlightTargets ::
  "Chat option \<Rightarrow> SelectedSource option \<Rightarrow> js_error + string list" where
  "viewerHighlightTargets activeChat source =
     (let srcs = (case source of None \<Rightarrow> [] | Some x \<Rightarrow> sel_sources x);
          d = (case source of None \<Rightarrow> [] | Some x \<Rightarrow> currentDocId x);
          cid = (case source of None \<Rightarrow> [] | Some x \<Rightarrow> contextMessageId x)
      in allHighlightTargets (currentDocCitations srcs d) (relevanceHighlights activeChat cid d))"

text \<open>The control shown in the toolbar of the viewer.\<close>

datatype toolbar = Analyzing | HighlightWithAI | HighlightsActive

definition highlightControl :: "bool \<Rightarrow> property_value \<Rightarrow> toolbar" where
  "highlightControl isDocAnalyzing rel =
     (if isDocAnalyzing then Analyzing
      else (case rel of Undefined \<Rightarrow> HighlightWithAI | _ \<Rightarrow> HighlightsActive))"

text \<open>\<open>handleOpenSource\<close> of App.tsx, called with the message's own sources and id.\<close>

definition handleOpenSource :: "SourceChunk list \<Rightarrow> string \<Rightarrow> string \<Rightarrow> SelectedSource" where
  "handleOpenSource srcs d messageId =
     \<lparr>sel_sources = srcs, currentDocId = d, viewMode = Full, contextMessageId = messageId\<rparr>"

section \<open>Evidence fetch: \<open>getRelevanceHighlights\<close> of apiService.ts\<close>

text \<open>
  What the request to \<open>/api/highlights\<close> can come to. Every failure is caught inside
  the function, which then returns the empty array: its promise never rejects.
\<close>

datatype http_response = NetworkError | NotOk string | InvalidJson | OkJson "string list"

definition getRelevanceHighlights :: "http_response \<Rightarrow> string list" where
  "getRelevanceHighlights r = (case r of OkJson hs \<Rightarrow> hs | _ \<Rightarrow> [])"

section \<open>Analysis task coordinator: App.tsx\<close>

text \<open>
  A call of \<open>handleTriggerDocAnalysis\<close> suspended at its \<open>await\<close>, with the variables
  its continuation has captured.
\<close>

record pending =
  p_activeChatId :: string
  p_messageId :: string
  p_docId :: string
  p_taskKey :: string
  p_answer :: string
  p_content :: string

text \<open>
  The state of the component. The updates that a handler requests are those of the
  source: \<open>setAnalyzingTasks\<close> with an updater that adds or deletes a key, and
  \<open>updateMessageHighlights\<close>. An updater runs on the latest state. The updaters that a
  handler queues in one synchronous stretch are run together, in order, by the next
  render: the component has no state between them.
\<close>

record app_state =
  chats :: "Chat list"
  currentChatId_st :: "string option"
  handbookDocs :: "HandbookDoc list"
  analyzingTasks :: "string set"
  pendingFetches :: "pending list"

datatype update =
    TasksAdd string
  | TasksDelete string
  | SetHighlights string string string "string list"

definition updateMessageHighlights ::
  "string \<Rightarrow> string \<Rightarrow> string \<Rightarrow> string list \<Rightarrow> Chat list \<Rightarrow> Chat list" where
  "updateMessageHighlights chatId messageId d hs prev =
     map (\<lambda>c. if chat_id c \<noteq> chatId then c
              else c\<lparr>messages :=
                     map (\<lambda>m. if msg_id m \<noteq> messageId then m
                              else m\<lparr>highlights :=
                                     Some ((case highlights m of None \<Rightarrow> Map.empty | Some h \<Rightarrow> h)
                                           (d \<mapsto> hs))\<rparr>)
                         (messages c)\<rparr>)
         prev"

fun apply_update :: "update \<Rightarrow> app_state \<Rightarrow> app_state" where
  "apply_update (TasksAdd k) s = s\<lparr>analyzingTasks := insert k (analyzingTasks s)\<rparr>"
| "apply_update (TasksDelete k) s = s\<lparr>analyzingTasks := analyzingTasks s - {k}\<rparr>"
| "apply_update (SetHighlights c m d hs) s =
     s\<lparr>chats := updateMessageHighlights c m d hs (chats s)\<rparr>"

definition taskKeyOf :: "string \<Rightarrow> string \<Rightarrow> string" where
  "taskKeyOf messageId d = messageId @ ''|'' @ d"

text \<open>
  \<open>handleTriggerDocAnalysis\<close> up to its \<open>await\<close>: the updates requested, in order, and
  the fetch started, if any. The callback is built by a render and reads the variables
  \<open>analyzingTasks\<close>, \<open>currentChatId\<close> and \<open>handbookDocs\<close> that this render captured
  (the dependencies of its \<open>useCallback\<close>): \<open>s\<close> is the state that the render saw, not
  the latest one. A \<open>currentChatId\<close> that is null or the empty string is falsy.
\<close>

definition handleTriggerDocAnalysis ::
  "app_state \<Rightarrow> string \<Rightarrow> string \<Rightarrow> string \<Rightarrow> update list \<times> pending option" where
  "handleTriggerDocAnalysis s messageId d answer =
     (let taskKey = taskKeyOf messageId d in
      if taskKey \<in> analyzingTasks s
         \<or> (case currentChatId_st s of None \<Rightarrow> True | Some c \<Rightarrow> c = [])
      then ([], None)
      else
        (let activeChatId = (case currentChatId_st s of None \<Rightarrow> [] | Some c \<Rightarrow> c) in
         case find (\<lambda>x. doc_id x = d) (handbookDocs s) of
           None \<Rightarrow> ([TasksAdd taskKey, TasksDelete taskKey], None)
         | Some doc \<Rightarrow>
             ([TasksAdd taskKey],
              Some \<lparr>p_activeChatId = activeChatId, p_messageId = messageId, p_docId = d,
                    p_taskKey = taskKey, p_answer = answer, p_content = doc_content doc\<rparr>)))"

text \<open>
  The continuation after the \<open>await\<close>: \<open>Inr\<close> is the array the promise resolved to,
  \<open>Inl\<close> a rejection, which the \<open>catch\<close> logs. The \<open>finally\<close> deletes the key in
  both cases.
\<close>

fun resumeTriggerDocAnalysis :: "pending \<Rightarrow> string + string list \<Rightarrow> update list" where
  "resumeTriggerDocAnalysis p (Inr hs) =
     [SetHighlights (p_activeChatId p) (p_messageId p) (p_docId p) hs, TasksDelete (p_taskKey p)]"
| "resumeTriggerDocAnalysis p (Inl e) = [TasksDelete (p_taskKey p)]"

definition handleDeleteChat :: "string \<Rightarrow> Chat list \<Rightarrow> Chat list" where
  "handleDeleteChat i prev = filter (\<lambda>c. chat_id c \<noteq> i) prev"

text \<open>
  Selecting a chat sets \<open>currentChatId\<close>; when the value changes, the effect on that
  variable clears the unread flag of the chat.
\<close>

definition selectChat :: "string \<Rightarrow> app_state \<Rightarrow> app_state" where
  "selectChat i s =
     (if currentChatId_st s = Some i then s
      else s\<lparr>currentChatId_st := Some i,
             chats := (if i = [] then chats s
                       else map (\<lambda>c. if chat_id c = i then c\<lparr>hasUnreadResponse := Some False\<rparr>
                                     else c)
                              (chats s))\<rparr>)"

text \<open>
  A call of the callback that a render built when the state was \<open>captured\<close>, made when
  the latest state is \<open>s\<close>: the guard and the lookups read \<open>captured\<close>, the updaters run
  on \<open>s\<close>, and the fetch started joins the suspended calls.
\<close>

definition triggerCall ::
  "app_state \<Rightarrow> string \<Rightarrow> string \<Rightarrow> string \<Rightarrow> app_state \<Rightarrow> app_state" where
  "triggerCall captured messageId d answer s =
     (case handleTriggerDocAnalysis captured messageId d answer of
        (us, started) \<Rightarrow>
          (let s' = fold apply_update us s in
           s'\<lparr>pendingFetches :=
                pendingFetches s' @ (case started of None \<Rightarrow> [] | Some p \<Rightarrow> [p])\<rparr>))"

declare triggerCall_def [simp]

text \<open>
  The events of a session. \<open>Trigger\<close> is the highlight action used after the latest
  state has been rendered, as a click is: the call of the callback of that render. A call
  of a callback that an earlier render built is \<open>triggerCall\<close> with the state of that
  render. \<open>Settle n r\<close> completes the \<open>n\<close>-th suspended fetch with the response \<open>r\<close>,
  in any order. \<open>SetChats\<close> stands for the other writers of the conversations (a new
  chat, a sent message, a renamed chat), which touch neither the tasks nor the suspended
  calls.
\<close>

datatype event =
    Trigger string string string
  | Settle nat http_response
  | SelectChat string
  | DeleteChat string
  | LoadHandbooks "HandbookDoc list"
  | SetChats "Chat list"

fun step :: "event \<Rightarrow> app_state \<Rightarrow> app_state" where
  "step (Trigger messageId d answer) s = triggerCall s messageId d answer s"
| "step (Settle n r) s =
     (if n < length (pendingFetches s) then
        (let p = pendingFetches s ! n;
             s' = s\<lparr>pendingFetches := take n (pendingFetches s) @ drop (Suc n) (pendingFetches s)\<rparr>
         in fold apply_update (resumeTriggerDocAnalysis p (Inr (getRelevanceHighlights r))) s')
      else s)"
| "step (SelectChat i) s = selectChat i s"
| "step (DeleteChat i) s = s\<lparr>chats := handleDeleteChat i (chats s)\<rparr>"
| "step (LoadHandbooks docs) s = s\<lparr>handbookDocs := docs\<rparr>"
| "step (SetChats cs) s = s\<lparr>chats := cs\<rparr>"

definition initial :: app_state where
  "initial = \<lparr>chats = [], currentChatId_st = None, handbookDocs = [],
              analyzingTasks = {}, pendingFetches = []\<rparr>"

definition run :: "event list \<Rightarrow> app_state" where
  "run evs = fold step evs initial"

text \<open>
  The invariant of the coordinator: the suspended fetches have pairwise different task
  keys, each of their keys is in \<open>analyzingTasks\<close>, and the key of each is the one of
  its message and document.
\<close>

definition tasks_inv :: "app_state \<Rightarrow> bool" where
  "tasks_inv s =
     (distinct (map p_taskKey (pendingFetches s))
      \<and> set (map p_taskKey (pendingFetches s)) \<subseteq> analyzingTasks s
      \<and> list_all (\<lambda>p. p_taskKey p = taskKeyOf (p_messageId p) (p_docId p)) (pendingFetches s))"

text \<open>
  The suspended call that a trigger leaves behind when it starts a fetch, and the update
  that \<open>updateMessageHighlights\<close> makes to one message.
\<close>

definition started :: "string \<Rightarrow> string \<Rightarrow> string \<Rightarrow> string \<Rightarrow> HandbookDoc \<Rightarrow> pending" where
  "started A m d a doc = \<lparr>p_activeChatId = A, p_messageId = m, p_docId = d,
     p_taskKey = taskKeyOf m d, p_answer = a, p_content = doc_content doc\<rparr>"

definition writeEntry :: "string \<Rightarrow> string \<Rightarrow> string list \<Rightarrow> Message \<Rightarrow> Message" where
  "writeEntry messageId d hs x =
     (if msg_id x \<noteq> messageId then x
      else x\<lparr>highlights :=
             Some ((case highlights x of None \<Rightarrow> Map.empty | Some h \<Rightarrow> h)(d \<mapsto> hs))\<rparr>)"

section \<open>An example session\<close>

text \<open>
  The data of the end-to-end example: one document, an assistant message that cites it,
  two chats, chat \<open>A\<close> active.
\<close>

definition example_doc :: HandbookDoc where
  "example_doc = \<lparr>doc_id = ''d1'', doc_title = ''Leave'', doc_category = ''HR'',
     doc_content = ''Employees get 25 days of annual leave per year.''\<rparr>"

definition example_sources :: "SourceChunk list" where
  "example_sources = [\<lparr>docId = ''d1'', snippet = ''25 days of annual leave''\<rparr>,
     \<lparr>docId = ''d2'', snippet = ''sick pay''\<rparr>]"

definition example_message :: Message where
  "example_message = \<lparr>msg_id = ''m1'', msg_role = Assistant,
     msg_content = ''You get 25 days.'', sources = Some example_sources,
     highlights = Some Map.empty, timestamp = 0\<rparr>"

definition analyzed_message :: "string list \<Rightarrow> Message" where
  "analyzed_message hs = example_message\<lparr>highlights := Some [''d1'' \<mapsto> hs]\<rparr>"

definition chat_with :: "string \<Rightarrow> Message list \<Rightarrow> Chat" where
  "chat_with i ms = \<lparr>chat_id = i, chat_title = ''New Chat'', messages = ms, updatedAt = 0,
     isLoading = Some False, hasUnreadResponse = Some False, isCustomTitle = Some False\<rparr>"

definition example_state :: app_state where
  "example_state = \<lparr>chats = [chat_with ''A'' [example_message], chat_with ''B'' [example_message]],
     currentChatId_st = Some ''A'', handbookDocs = [example_doc],
     analyzingTasks = {}, pendingFetches = []\<rparr>"

text \<open>
  A session that reaches the example from the start: the documents are loaded, the chats
  are there, chat \<open>A\<close> is selected, and the highlight action is used on the message.
\<close>

definition example_events :: "event list" where
  "example_events = [LoadHandbooks [example_doc],
     SetChats [chat_with ''A'' [example_message], chat_with ''B'' [example_message]],
     SelectChat ''A'', Trigger ''m1'' ''d1'' ''You get 25 days.'']"

section \<open>Properties of the phrase matcher\<close>

subsection \<open>The scan as a map over the segments\<close>

lemma concat_split_from: "concat (split_from target acc s) = acc @ s"
proof (induction target acc s rule: split_from.induct)
  case (1 target acc s)
  show ?case
  proof (cases "s = []")
    case True
    then show ?thesis by (subst split_from.simps) simp
  next
    case False
    note ne = this
    show ?thesis
    proof (cases "regex_match_at target s \<and> \<not> (target = [] \<and> acc = [])")
      case True
      with ne "1.IH"(1) show ?thesis
        by (subst split_from.simps) simp
    next
      case False
      with ne "1.IH"(2) show ?thesis
        by (subst split_from.simps) (cases s; auto)
    qed
  qed
qed

lemma concat_js_split: "concat (js_split seg target) = seg"
  by (simp add: js_split_def concat_split_from)

lemma segment_text_classify: "segment_text (classify target part) = part"
  by (simp add: classify_def)

lemma concat_filter_nonempty: "concat (filter (\<lambda>part. part \<noteq> []) parts) = concat parts"
  by (induction parts) auto

lemma concat_newSegments:
  "concat (map segment_text (newSegments target parts)) = concat parts"
proof -
  have "map segment_text (newSegments target parts) = filter (\<lambda>part. part \<noteq> []) parts"
    by (simp add: newSegments_def comp_def segment_text_classify)
  then show ?thesis by (simp add: concat_filter_nonempty)
qed

lemma concat_scanOne: "concat (map segment_text (scanOne target x)) = segment_text x"
  by (cases x) (simp_all add: Let_def concat_newSegments concat_js_split)

lemma scanSegments_eq:
  "scanSegments target segments i =
     take i segments @ concat (map (scanOne target) (drop i segments))"
proof (induction target segments i rule: scanSegments.induct)
  case (1 target segments i)
  show ?case
  proof (cases "i < length segments")
    case False
    then show ?thesis by (subst scanSegments.simps) simp
  next
    case True
    note lt = this
    have dr: "drop i segments = segments ! i # drop (Suc i) segments"
      using lt by (simp add: Cons_nth_drop_Suc)
    have tk: "take (Suc i) segments = take i segments @ [segments ! i]"
      using lt by (simp add: take_Suc_conv_app_nth)
    show ?thesis
    proof (cases "segments ! i")
      case (Mark m)
      have "scanSegments target segments i = scanSegments target segments (Suc i)"
        using lt Mark by (subst scanSegments.simps) simp
      also have "\<dots> = take (Suc i) segments @ concat (map (scanOne target) (drop (Suc i) segments))"
        using "1.IH"(3) [OF lt Mark] .
      finally show ?thesis using Mark by (simp add: dr tk)
    next
      case (Str seg)
      show ?thesis
      proof (cases "length (js_split seg target) > 1")
        case False
        have "scanSegments target segments i = scanSegments target segments (Suc i)"
          using lt Str False by (subst scanSegments.simps) simp
        also have "\<dots> = take (Suc i) segments @ concat (map (scanOne target) (drop (Suc i) segments))"
          using "1.IH"(2) [OF lt Str refl] False by simp
        finally show ?thesis using Str False by (simp add: dr tk)
      next
        case True
        define new where "new = newSegments target (js_split seg target)"
        define segs' where "segs' = take i segments @ new @ drop (Suc i) segments"
        have len: "length (take i segments) = i" using lt by simp
        have "scanSegments target segments i = scanSegments target segs' (i + length new)"
          using lt Str True by (subst scanSegments.simps) (simp add: new_def segs'_def Let_def)
        also have "\<dots> = take (i + length new) segs' @
            concat (map (scanOne target) (drop (i + length new) segs'))"
          using "1.IH"(1) [OF lt Str refl True refl] by (simp add: new_def segs'_def)
        also have "take (i + length new) segs' = take i segments @ new"
          using len by (simp add: segs'_def)
        also have "drop (i + length new) segs' = drop (Suc i) segments"
          using len by (simp add: segs'_def)
        finally show ?thesis using Str True by (simp add: dr new_def)
      qed
    qed
  qed
qed

lemma processTarget_eq:
  "processTarget target segments =
     (if target = [] \<or> length (trim target) < 3 then segments
      else concat (map (scanOne target) segments))"
  by (simp add: processTarget_def scanSegments_eq)

lemma concat_map_scanOne:
  "concat (map segment_text (concat (map (scanOne target) segments))) =
     concat (map segment_text segments)"
  by (induction segments) (simp_all add: concat_scanOne)

lemma concat_processTarget:
  "concat (map segment_text (processTarget target segments)) =
     concat (map segment_text segments)"
  by (simp add: processTarget_eq concat_map_scanOne)

lemma concat_fold_processTarget:
  "concat (map segment_text (fold processTarget targets segments)) =
     concat (map segment_text segments)"
  by (induction targets arbitrary: segments) (simp_all add: concat_processTarget)

lemma concat_HighlightedText:
  "concat (map segment_text (HighlightedText text allTargets)) = text"
  by (simp add: HighlightedText_def concat_fold_processTarget)

text \<open>
  Claim C1 (losslessness). For every text and every list of phrases, the texts of the
  segments that \<open>HighlightedText\<close> produces, concatenated in order, are the input text.
  With an empty text or no phrase the result is the single unmarked segment holding the
  text. The function is total: none of the operations it uses on strings can throw.
\<close>

theorem HighlightedText_lossless:
  "concat (map segment_text (HighlightedText text allTargets)) = text
   \<and> HighlightedText [] allTargets = [Str []]
   \<and> HighlightedText text [] = [Str text]"
  by (simp add: HighlightedText_def concat_fold_processTarget)

subsection \<open>Marked spans\<close>

lemma matchedPositions_bounds:
  "list_all (\<lambda>p. off \<le> p \<and> p < off + length (concat (map segment_text segs))) (matchedPositions off segs)"
proof (induction off segs rule: matchedPositions.induct)
  case (1 off)
  then show ?case by simp
next
  case (2 off s segs)
  then show ?case by (auto simp: list_all_iff)
next
  case (3 off s segs)
  then show ?case by (auto simp: list_all_iff)
qed

lemma matchedPositions_distinct: "distinct (matchedPositions off segs)"
proof (induction off segs rule: matchedPositions.induct)
  case (1 off)
  then show ?case by simp
next
  case (2 off s segs)
  then show ?case by simp
next
  case (3 off s segs)
  have "\<forall>p \<in> set (matchedPositions (off + length s) segs). off + length s \<le> p"
    using matchedPositions_bounds [of "off + length s" segs] by (auto simp: list_all_iff)
  with 3 show ?case by auto
qed

lemma processTarget_append:
  "processTarget target (xs @ ys) = processTarget target xs @ processTarget target ys"
  by (simp add: processTarget_eq)

lemma processTarget_Mark: "processTarget target [Mark m] = [Mark m]"
  by (simp add: processTarget_eq)

lemma processTarget_keeps_mark:
  "processTarget target (xs @ Mark m # ys) =
     processTarget target xs @ Mark m # processTarget target ys"
  using processTarget_append [of target xs "[Mark m] @ ys"]
        processTarget_append [of target "[Mark m]" ys]
  by (simp add: processTarget_Mark)

lemma sortedTargets_descending:
  "sorted_wrt (\<lambda>a b. length b \<le> length a) (sortedTargets allTargets)"
proof -
  have "sorted (map (\<lambda>t. - int (length t)) (sortedTargets allTargets))"
    by (simp add: sortedTargets_def)
  then show ?thesis by (simp add: sorted_map)
qed

lemma annual_leave_example:
  "HighlightedText ''annual leave policy'' [''annual leave'', ''leave'']
     = [Mark ''annual leave'', Str '' policy'']"
  by code_simp

lemma annual_leave_example_rev:
  "HighlightedText ''annual leave policy'' [''leave'', ''annual leave'']
     = [Mark ''annual leave'', Str '' policy'']"
  by code_simp

text \<open>
  Claim C6 (no overlap, longest first). The character positions covered by the marked
  segments of the result are pairwise different and lie inside the text, so no two marked
  spans share a position. The phrases are processed by descending length, and the pass for
  a phrase leaves a segment that is already marked as it is and where it is, so a phrase
  inside a marked span is not marked again. With the phrases "annual leave" and "leave",
  in either order, the text "annual leave policy" gets the one mark "annual leave".
\<close>

theorem marks_do_not_overlap:
  "distinct (matchedPositions 0 (HighlightedText text allTargets))
   \<and> list_all (\<lambda>p. p < length text) (matchedPositions 0 (HighlightedText text allTargets))
   \<and> sorted_wrt (\<lambda>a b. length b \<le> length a) (sortedTargets allTargets)
   \<and> processTarget target (xs @ Mark m # ys) =
         processTarget target xs @ Mark m # processTarget target ys
   \<and> HighlightedText ''annual leave policy'' [''annual leave'', ''leave'']
         = [Mark ''annual leave'', Str '' policy'']
   \<and> HighlightedText ''annual leave policy'' [''leave'', ''annual leave'']
         = [Mark ''annual leave'', Str '' policy'']"
proof -
  have "list_all (\<lambda>p. p < length text) (matchedPositions 0 (HighlightedText text allTargets))"
    using matchedPositions_bounds [of 0 "HighlightedText text allTargets"]
    by (simp add: concat_HighlightedText)
  then show ?thesis
    by (simp only: matchedPositions_distinct sortedTargets_descending processTarget_keeps_mark
        annual_leave_example annual_leave_example_rev simp_thms)
qed

subsection \<open>Short phrases\<close>

lemma set_sortedTargets: "set (sortedTargets allTargets) = set allTargets"
  by (simp add: sortedTargets_def)

lemma isWhiteSpace_toLowerCase_char: "isWhiteSpace (toLowerCase_char c) = isWhiteSpace c"
proof -
  have lt: "(of_char c :: nat) < 256" by simp
  show ?thesis
    using lt by (auto simp: isWhiteSpace_def toLowerCase_char_def Let_def)
qed

lemma dropWhile_toLowerCase:
  "dropWhile isWhiteSpace (toLowerCase s) = toLowerCase (dropWhile isWhiteSpace s)"
  by (induction s) (simp_all add: toLowerCase_def isWhiteSpace_toLowerCase_char)

lemma rev_toLowerCase: "rev (toLowerCase s) = toLowerCase (rev s)"
  by (simp add: toLowerCase_def rev_map)

lemma trim_toLowerCase: "trim (toLowerCase s) = toLowerCase (trim s)"
  by (simp add: trim_def dropWhile_toLowerCase rev_toLowerCase)

lemma length_toLowerCase: "length (toLowerCase s) = length s"
  by (simp add: toLowerCase_def)

lemma length_trim_toLowerCase:
  "toLowerCase a = toLowerCase b \<Longrightarrow> length (trim a) = length (trim b)"
proof -
  assume eq: "toLowerCase a = toLowerCase b"
  have "length (trim a) = length (trim (toLowerCase a))"
    by (simp only: trim_toLowerCase length_toLowerCase)
  also have "\<dots> = length (trim (toLowerCase b))" by (simp only: eq)
  also have "\<dots> = length (trim b)"
    by (simp only: trim_toLowerCase length_toLowerCase)
  finally show ?thesis .
qed

lemma Mark_in_newSegments:
  "Mark m \<in> set (newSegments target parts) \<Longrightarrow> toLowerCase m = toLowerCase target"
  by (auto simp: newSegments_def classify_def split: if_splits)

lemma Mark_in_scanOne:
  "Mark m \<in> set (scanOne target x) \<Longrightarrow> x = Mark m \<or> toLowerCase m = toLowerCase target"
  by (cases x) (auto simp: Let_def split: if_splits dest: Mark_in_newSegments)

lemma Mark_in_processTarget:
  "Mark m \<in> set (processTarget target segs) \<Longrightarrow>
     Mark m \<in> set segs \<or> (3 \<le> length (trim target) \<and> toLowerCase m = toLowerCase target)"
  by (auto simp: processTarget_eq split: if_splits dest: Mark_in_scanOne)

lemma Mark_in_fold_processTarget:
  "Mark m \<in> set (fold processTarget targets segs) \<Longrightarrow>
     Mark m \<in> set segs \<or>
     (\<exists>t \<in> set targets. 3 \<le> length (trim t) \<and> toLowerCase m = toLowerCase t)"
proof (induction targets arbitrary: segs)
  case Nil
  then show ?case by simp
next
  case (Cons t targets)
  from Cons.prems have "Mark m \<in> set (fold processTarget targets (processTarget t segs))"
    by simp
  from Cons.IH [OF this] show ?case
    using Mark_in_processTarget [of m t segs] by auto
qed

lemma Mark_in_HighlightedText:
  "Mark m \<in> set (HighlightedText text allTargets) \<Longrightarrow>
     \<exists>t \<in> set allTargets. 3 \<le> length (trim t) \<and> toLowerCase m = toLowerCase t"
proof -
  assume a: "Mark m \<in> set (HighlightedText text allTargets)"
  show ?thesis
  proof (cases "text = [] \<or> allTargets = []")
    case True
    with a show ?thesis by (auto simp: HighlightedText_def)
  next
    case False
    with a have "Mark m \<in> set (fold processTarget (sortedTargets allTargets) [Str text])"
      by (simp add: HighlightedText_def)
    from Mark_in_fold_processTarget [OF this] show ?thesis
      by (simp add: set_sortedTargets)
  qed
qed

lemma set_newSet: "set (newSet acc xs) = set acc \<union> set xs"
  by (induction acc xs rule: newSet.induct) auto

lemma distinct_newSet: "distinct acc \<Longrightarrow> distinct (newSet acc xs)"
  by (induction acc xs rule: newSet.induct) auto

lemma allHighlightTargets_long:
  "allHighlightTargets cites rel = Inr targets \<Longrightarrow> t \<in> set targets \<Longrightarrow> 3 < length (trim t)"
  by (auto simp: allHighlightTargets_def Let_def split: property_value.splits)

text \<open>
  Claim C8 (minimum length), as amended. A phrase whose length after trimming is below 3
  never gets a marked span from \<open>HighlightedText\<close>, whatever the text and the other
  phrases: a marked span is equal, up to case, to a phrase of trimmed length at least 3.
  The phrases that the viewer passes on have a trimmed length above 3, so through the
  viewer a phrase of trimmed length 3 or less is never marked.
\<close>

theorem short_phrases_not_marked:
  "(length (trim p) < 3 \<longrightarrow>
      \<not> (\<exists>m. Mark m \<in> set (HighlightedText text allTargets) \<and> toLowerCase m = toLowerCase p))
   \<and> (length (trim q) \<le> 3 \<and> allHighlightTargets cites rel = Inr targets \<longrightarrow>
      \<not> (\<exists>m. Mark m \<in> set (HighlightedText text targets) \<and> toLowerCase m = toLowerCase q))"
proof (intro conjI impI notI)
  assume short: "length (trim p) < 3"
    and "\<exists>m. Mark m \<in> set (HighlightedText text allTargets) \<and> toLowerCase m = toLowerCase p"
  then obtain m where m: "Mark m \<in> set (HighlightedText text allTargets)"
    and mp: "toLowerCase m = toLowerCase p" by blast
  from Mark_in_HighlightedText [OF m] obtain t
    where "3 \<le> length (trim t)" and "toLowerCase m = toLowerCase t" by blast
  with mp have "3 \<le> length (trim p)"
    using length_trim_toLowerCase [of t p] by simp
  with short show False by simp
next
  assume pre: "length (trim q) \<le> 3 \<and> allHighlightTargets cites rel = Inr targets"
    and "\<exists>m. Mark m \<in> set (HighlightedText text targets) \<and> toLowerCase m = toLowerCase q"
  then obtain m where m: "Mark m \<in> set (HighlightedText text targets)"
    and mq: "toLowerCase m = toLowerCase q" by blast
  from Mark_in_HighlightedText [OF m] obtain t
    where t: "t \<in> set targets" and "toLowerCase m = toLowerCase t"
    by blast
  with mq have "length (trim q) = length (trim t)"
    using length_trim_toLowerCase [of q t] by simp
  with allHighlightTargets_long [OF _ t] pre show False by fastforce
qed

lemma padded_lengths:
  "length (trim [CHR 0xA0, CHR ''a'', CHR ''b'', CHR 0xA0]) = 2"
  "length (trim [CHR 0xA0, CHR ''a'', CHR ''b'', CHR ''c'']) = 3"
  by code_simp+

lemma padded_targets:
  "allHighlightTargets [\<lparr>docId = ''d1'', snippet = [CHR 0xA0, CHR ''a'', CHR ''b'', CHR ''c'']\<rparr>]
     (StringArray [''abcd'']) = Inr [''abcd'']"
  by code_simp

theorem short_phrases_not_marked_witness:
  "length (trim [CHR 0xA0, CHR ''a'', CHR ''b'', CHR 0xA0]) < 3
   \<and> \<not> (\<exists>m. Mark m \<in> set (HighlightedText
                (''c'' @ [CHR 0xA0, CHR ''a'', CHR ''b'', CHR 0xA0] @ ''abcd'')
                [[CHR 0xA0, CHR ''a'', CHR ''b'', CHR 0xA0], ''abcd''])
            \<and> toLowerCase m = toLowerCase [CHR 0xA0, CHR ''a'', CHR ''b'', CHR 0xA0])
   \<and> length (trim [CHR 0xA0, CHR ''a'', CHR ''b'', CHR ''c'']) \<le> 3
   \<and> allHighlightTargets [\<lparr>docId = ''d1'', snippet = [CHR 0xA0, CHR ''a'', CHR ''b'', CHR ''c'']\<rparr>]
        (StringArray [''abcd'']) = Inr [''abcd'']
   \<and> \<not> (\<exists>m. Mark m \<in> set (HighlightedText ([CHR 0xA0] @ ''abc abcd'') [''abcd''])
            \<and> toLowerCase m = toLowerCase [CHR 0xA0, CHR ''a'', CHR ''b'', CHR ''c''])"
proof -
  have a: "length (trim [CHR 0xA0, CHR ''a'', CHR ''b'', CHR 0xA0]) < 3"
    by (simp add: padded_lengths)
  have b: "length (trim [CHR 0xA0, CHR ''a'', CHR ''b'', CHR ''c'']) \<le> 3"
    by (simp add: padded_lengths)
  show ?thesis
    using a b padded_targets
      short_phrases_not_marked [of "[CHR 0xA0, CHR ''a'', CHR ''b'', CHR 0xA0]"
        "''c'' @ [CHR 0xA0, CHR ''a'', CHR ''b'', CHR 0xA0] @ ''abcd''"
        "[[CHR 0xA0, CHR ''a'', CHR ''b'', CHR 0xA0], ''abcd'']"]
      short_phrases_not_marked [of _ "[CHR 0xA0] @ ''abc abcd''" _
        "[CHR 0xA0, CHR ''a'', CHR ''b'', CHR ''c'']"
        "[\<lparr>docId = ''d1'', snippet = [CHR 0xA0, CHR ''a'', CHR ''b'', CHR ''c'']\<rparr>]"
        "StringArray [''abcd'']" "[''abcd'']"]
    by blast
qed

text \<open>
  The claim as it was stated fails for the matcher at length 3: its guard is
  \<open>target.trim().length < 3\<close>.
\<close>

theorem length_three_phrase_marked:
  "length (trim ''abc'') \<le> 3 \<and> Mark ''abc'' \<in> set (HighlightedText ''xabcx'' [''abc''])"
  by code_simp

section \<open>Properties of the resolver\<close>

lemma viewerHighlightTargets_opened:
  "viewerHighlightTargets (Some chat) (Some (handleOpenSource srcs d mid)) =
     allHighlightTargets (currentDocCitations srcs d) (relevanceHighlights (Some chat) mid d)"
  by (simp add: viewerHighlightTargets_def handleOpenSource_def)

lemma example_context:
  "contextMessage (Some (chat_with ''A'' [example_message])) ''m1'' = Some example_message"
  by (simp add: contextMessage_def chat_with_def example_message_def)

lemma analyzed_context:
  "contextMessage (Some (chat_with ''A'' [analyzed_message hs])) ''m1'' = Some (analyzed_message hs)"
  by (simp add: contextMessage_def chat_with_def example_message_def analyzed_message_def)

lemma readHighlights_own: "highlightsEntry m d = Some hs \<Longrightarrow> readHighlights m d = StringArray hs"
  by (auto simp: highlightsEntry_def readHighlights_def split: option.splits)

lemma readHighlights_absent:
  "highlightsEntry m d = None \<Longrightarrow> d \<notin> set objectPrototypeKeys \<Longrightarrow> readHighlights m d = Undefined"
  by (auto simp: highlightsEntry_def readHighlights_def split: option.splits)

text \<open>
  For a document id that is not the name of an inherited property, a message with no entry
  for the document gives no targets.
\<close>

lemma clean_until_requested:
  assumes "contextMessage (Some chat) (msg_id m) = Some m"
    and "highlightsEntry m d = None"
    and "d \<notin> set objectPrototypeKeys"
  shows "viewerHighlightTargets (Some chat) (Some (handleOpenSource srcs d (msg_id m))) = Inr []"
  using assms
  by (simp add: viewerHighlightTargets_opened relevanceHighlights_def allHighlightTargets_def
      readHighlights_absent)


lemma trim_Nil: "trim [] = []"
  by (simp add: trim_def)

lemma allHighlightTargets_StringArray:
  "\<exists>r. allHighlightTargets cites (StringArray hs) = Inr r \<and> distinct r \<and>
     set r = {t \<in> set (map snippet cites) \<union> set hs. 3 < length (trim t)}"
  by (auto simp: allHighlightTargets_def Let_def set_newSet distinct_newSet trim_Nil)

text \<open>
  Claim C7 (targets after analysis), as amended. When the message has an entry for the
  document, even an empty one, the viewer's highlight targets are, without repetition, the
  snippets of the message's citations of that document and the phrases of the entry, except
  those whose length after trimming is 3 or less, which the final filter drops.
\<close>

theorem resolve_after_analysis:
  assumes "contextMessage (Some chat) (msg_id m) = Some m"
    and "sources m = Some srcs"
    and "highlightsEntry m d = Some hs"
  shows "\<exists>r. viewerHighlightTargets (Some chat) (Some (handleOpenSource srcs d (msg_id m))) = Inr r
    \<and> distinct r
    \<and> set r = {t \<in> set (map snippet (currentDocCitations srcs d)) \<union> set hs. 3 < length (trim t)}"
  using assms allHighlightTargets_StringArray [of "currentDocCitations srcs d" hs]
  by (simp add: viewerHighlightTargets_opened relevanceHighlights_def readHighlights_own)

lemma padded_entry_value:
  "viewerHighlightTargets
     (Some (chat_with ''A'' [analyzed_message [[CHR 0xA0, CHR ''a'', CHR ''b'', CHR ''c''], ''per year'']]))
     (Some (handleOpenSource example_sources ''d1'' ''m1''))
   = Inr [''25 days of annual leave'', ''per year'']"
  by code_simp

theorem resolve_after_analysis_witness:
  "contextMessage
      (Some (chat_with ''A'' [analyzed_message [[CHR 0xA0, CHR ''a'', CHR ''b'', CHR ''c''], ''per year'']]))
      (msg_id (analyzed_message [[CHR 0xA0, CHR ''a'', CHR ''b'', CHR ''c''], ''per year'']))
     = Some (analyzed_message [[CHR 0xA0, CHR ''a'', CHR ''b'', CHR ''c''], ''per year''])
   \<and> sources (analyzed_message [[CHR 0xA0, CHR ''a'', CHR ''b'', CHR ''c''], ''per year''])
       = Some example_sources
   \<and> highlightsEntry (analyzed_message [[CHR 0xA0, CHR ''a'', CHR ''b'', CHR ''c''], ''per year'']) ''d1''
       = Some [[CHR 0xA0, CHR ''a'', CHR ''b'', CHR ''c''], ''per year'']
   \<and> viewerHighlightTargets
        (Some (chat_with ''A'' [analyzed_message [[CHR 0xA0, CHR ''a'', CHR ''b'', CHR ''c''], ''per year'']]))
        (Some (handleOpenSource example_sources ''d1''
           (msg_id (analyzed_message [[CHR 0xA0, CHR ''a'', CHR ''b'', CHR ''c''], ''per year'']))))
      = Inr [''25 days of annual leave'', ''per year'']
   \<and> set [''25 days of annual leave'', ''per year'']
      = {t \<in> set (map snippet (currentDocCitations example_sources ''d1''))
               \<union> set [[CHR 0xA0, CHR ''a'', CHR ''b'', CHR ''c''], ''per year'']. 3 < length (trim t)}"
proof -
  let ?m = "analyzed_message [[CHR 0xA0, CHR ''a'', CHR ''b'', CHR ''c''], ''per year'']"
  have i: "msg_id ?m = ''m1''" by (simp add: example_message_def analyzed_message_def)
  have a: "contextMessage (Some (chat_with ''A'' [?m])) (msg_id ?m) = Some ?m"
    by (simp only: i analyzed_context)
  have b: "sources ?m = Some example_sources"
    by (simp add: example_message_def analyzed_message_def)
  have c: "highlightsEntry ?m ''d1'' = Some [[CHR 0xA0, CHR ''a'', CHR ''b'', CHR ''c''], ''per year'']"
    by (simp add: highlightsEntry_def example_message_def analyzed_message_def)
  have v: "viewerHighlightTargets (Some (chat_with ''A'' [?m]))
        (Some (handleOpenSource example_sources ''d1'' (msg_id ?m)))
      = Inr [''25 days of annual leave'', ''per year'']"
    by (simp only: i padded_entry_value)
  from resolve_after_analysis [OF a b c] v
  have "set [''25 days of annual leave'', ''per year'']
      = {t \<in> set (map snippet (currentDocCitations example_sources ''d1''))
               \<union> set [[CHR 0xA0, CHR ''a'', CHR ''b'', CHR ''c''], ''per year'']. 3 < length (trim t)}"
    by auto
  with a b c v show ?thesis by blast
qed

lemma short_entry_value:
  "viewerHighlightTargets (Some (chat_with ''A'' [analyzed_message [''per'']]))
        (Some (handleOpenSource example_sources ''d1'' ''m1'')) = Inr [''25 days of annual leave'']"
  by code_simp

text \<open>
  The claim as it was stated fails: a stored phrase of three characters is in the union and
  not in the result.
\<close>

theorem short_entry_dropped:
  "highlightsEntry (analyzed_message [''per'']) ''d1'' = Some [''per'']
   \<and> ''per'' \<in> set (map snippet (currentDocCitations example_sources ''d1'')) \<union> set [''per'']
   \<and> viewerHighlightTargets (Some (chat_with ''A'' [analyzed_message [''per'']]))
        (Some (handleOpenSource example_sources ''d1'' (msg_id (analyzed_message [''per'']))))
      = Inr [''25 days of annual leave'']"
proof -
  have i: "msg_id (analyzed_message [''per'']) = ''m1''"
    by (simp add: example_message_def analyzed_message_def)
  have c: "highlightsEntry (analyzed_message [''per'']) ''d1'' = Some [''per'']"
    by (simp add: highlightsEntry_def example_message_def analyzed_message_def)
  show ?thesis by (simp add: i c short_entry_value)
qed

section \<open>Properties of the coordinator\<close>

subsection \<open>The invariant of the tasks\<close>

lemma trigger_guarded:
  "taskKeyOf m d \<in> analyzingTasks s \<Longrightarrow> handleTriggerDocAnalysis s m d a = ([], None)"
  by (simp add: handleTriggerDocAnalysis_def)

lemma trigger_cases:
  "handleTriggerDocAnalysis s m d a = ([], None)
   \<or> (taskKeyOf m d \<notin> analyzingTasks s \<and>
       handleTriggerDocAnalysis s m d a = ([TasksAdd (taskKeyOf m d), TasksDelete (taskKeyOf m d)], None))
   \<or> (taskKeyOf m d \<notin> analyzingTasks s \<and>
       (\<exists>p. p_taskKey p = taskKeyOf m d \<and> p_messageId p = m \<and> p_docId p = d \<and>
            handleTriggerDocAnalysis s m d a = ([TasksAdd (taskKeyOf m d)], Some p)))"
  by (auto simp: handleTriggerDocAnalysis_def Let_def split: option.splits)

lemma step_noop: "handleTriggerDocAnalysis s m d a = ([], None) \<Longrightarrow> step (Trigger m d a) s = s"
  by simp

lemma tasks_inv_Trigger: "tasks_inv s \<Longrightarrow> tasks_inv (step (Trigger m d a) s)"
  using trigger_cases [of s m d a]
  by (auto simp: tasks_inv_def image_subset_iff)

lemma nth_not_in_rest:
  assumes "distinct (map f xs)" and "n < length xs"
  shows "f (xs ! n) \<notin> set (map f (take n xs @ drop (Suc n) xs))"
proof -
  have "xs = take n xs @ xs ! n # drop (Suc n) xs"
    using assms(2) by (simp add: id_take_nth_drop)
  then have "distinct (map f (take n xs @ xs ! n # drop (Suc n) xs))"
    using assms(1) by simp
  then show ?thesis by auto
qed

lemma distinct_rest:
  "distinct (map f xs) \<Longrightarrow> distinct (map f (take n xs @ drop (Suc n) xs))"
proof -
  assume d: "distinct (map f xs)"
  have "xs = take n xs @ drop n xs" by simp
  then have "distinct (map f (take n xs) @ map f (drop n xs))" using d
    by (metis map_append)
  moreover have "set (drop (Suc n) xs) \<subseteq> set (drop n xs)"
    by (simp add: set_drop_subset_set_drop)
  moreover have "distinct (map f (drop (Suc n) xs))"
    using d by (simp add: distinct_drop drop_map [symmetric])
  ultimately show ?thesis by auto
qed

lemma set_rest: "set (take n xs @ drop (Suc n) xs) \<subseteq> set xs"
  by (auto dest: in_set_takeD in_set_dropD)

lemma analyzingTasks_resume:
  "analyzingTasks (fold apply_update (resumeTriggerDocAnalysis p outcome) s) =
     analyzingTasks s - {p_taskKey p}"
  by (cases outcome) simp_all

lemma pendingFetches_resume:
  "pendingFetches (fold apply_update (resumeTriggerDocAnalysis p outcome) s) = pendingFetches s"
  by (cases outcome) simp_all

lemma chats_resume_Inr:
  "chats (fold apply_update (resumeTriggerDocAnalysis p (Inr hs)) s) =
     updateMessageHighlights (p_activeChatId p) (p_messageId p) (p_docId p) hs (chats s)"
  by simp

lemma tasks_inv_Settle: "tasks_inv s \<Longrightarrow> tasks_inv (step (Settle n r) s)"
proof (cases "n < length (pendingFetches s)")
  case False
  assume "tasks_inv s"
  with False show ?thesis by simp
next
  case True
  assume inv: "tasks_inv s"
  let ?ps = "pendingFetches s"
  let ?rest = "take n ?ps @ drop (Suc n) ?ps"
  have d: "distinct (map p_taskKey ?rest)"
    using inv by (simp only: tasks_inv_def distinct_rest)
  have notin: "p_taskKey (?ps ! n) \<notin> set (map p_taskKey ?rest)"
    using inv True nth_not_in_rest [of p_taskKey ?ps n] by (simp add: tasks_inv_def)
  have sub: "set (map p_taskKey ?rest) \<subseteq> analyzingTasks s"
    using inv set_rest [of n ?ps] by (auto simp: tasks_inv_def)
  have sub': "set (map p_taskKey ?rest) \<subseteq> analyzingTasks s - {p_taskKey (?ps ! n)}"
    using sub notin by blast
  have keys: "list_all (\<lambda>p. p_taskKey p = taskKeyOf (p_messageId p) (p_docId p)) ?rest"
    using inv set_rest [of n ?ps] unfolding tasks_inv_def list_all_iff by blast
  have "step (Settle n r) s =
      fold apply_update (resumeTriggerDocAnalysis (?ps ! n) (Inr (getRelevanceHighlights r)))
        (s\<lparr>pendingFetches := ?rest\<rparr>)"
    using True by (simp add: Let_def)
  then show ?thesis
    using d sub' keys
    by (simp only: tasks_inv_def analyzingTasks_resume pendingFetches_resume)
       (simp add: list_all_iff)
qed

lemma tasks_inv_step: "tasks_inv s \<Longrightarrow> tasks_inv (step e s)"
proof (cases e)
  case (Trigger m d a)
  assume "tasks_inv s"
  then show ?thesis unfolding Trigger by (rule tasks_inv_Trigger)
next
  case (Settle n r)
  assume "tasks_inv s"
  then show ?thesis unfolding Settle by (rule tasks_inv_Settle)
next
  case (SelectChat i)
  assume "tasks_inv s"
  then show ?thesis using SelectChat by (simp add: tasks_inv_def selectChat_def)
next
  case (DeleteChat i)
  assume "tasks_inv s"
  then show ?thesis using DeleteChat by (simp add: tasks_inv_def)
next
  case (LoadHandbooks docs)
  assume "tasks_inv s"
  then show ?thesis using LoadHandbooks by (simp add: tasks_inv_def)
next
  case (SetChats cs)
  assume "tasks_inv s"
  then show ?thesis using SetChats by (simp add: tasks_inv_def)
qed

lemma tasks_inv_fold: "tasks_inv s \<Longrightarrow> tasks_inv (fold step evs s)"
  by (induction evs arbitrary: s) (simp_all add: tasks_inv_step)

lemma tasks_inv_run: "tasks_inv (run evs)"
proof -
  have "tasks_inv initial" by (simp add: tasks_inv_def initial_def)
  then show ?thesis unfolding run_def by (rule tasks_inv_fold)
qed

lemma example_pending:
  "pendingFetches (run example_events) =
     [\<lparr>p_activeChatId = ''A'', p_messageId = ''m1'', p_docId = ''d1'', p_taskKey = ''m1|d1'',
       p_answer = ''You get 25 days.'',
       p_content = ''Employees get 25 days of annual leave per year.''\<rparr>]"
  by code_simp

lemma filter_at_most_one:
  assumes "distinct (map f xs)" and "\<forall>x \<in> set xs. P x \<longrightarrow> f x = k"
  shows "length (filter P xs) \<le> 1"
  using assms
proof (induction xs)
  case Nil
  then show ?case by simp
next
  case (Cons x xs)
  show ?case
  proof (cases "P x")
    case False
    with Cons show ?thesis by simp
  next
    case True
    with Cons.prems have fx: "f x = k" by simp
    have "filter P xs = []"
    proof (rule ccontr)
      assume "filter P xs \<noteq> []"
      then obtain y where y: "y \<in> set xs" "P y"
        by (metis filter_False)
      with Cons.prems have fy: "f y = k" by simp
      have "f x \<notin> f ` set xs" using Cons.prems(1) by simp
      moreover have "f y \<in> f ` set xs" using y(1) by (rule imageI)
      ultimately show False using fx fy by simp
    qed
    with True show ?thesis by simp
  qed
qed

lemma one_pending_per_pair:
  "tasks_inv s \<Longrightarrow>
     length (filter (\<lambda>p. p_messageId p = m \<and> p_docId p = d) (pendingFetches s)) \<le> 1"
  by (rule filter_at_most_one [where f = p_taskKey and k = "taskKeyOf m d"])
     (auto simp: tasks_inv_def list_all_iff)

text \<open>
  When every trigger is made after the latest state has been rendered, the guard works: in
  every state that such a session reaches, at most one fetch is suspended for a message
  and a document, a further trigger for a key with a suspended fetch leaves the state as it
  is, and a fetch that settles, with any response, leaves its key outside
  \<open>analyzingTasks\<close> and outside the suspended calls. The continuation deletes the key
  whether the awaited promise resolved or rejected.
\<close>

lemma one_fetch_per_key_after_render:
  "length (filter (\<lambda>p. p_messageId p = m \<and> p_docId p = d) (pendingFetches (run evs))) \<le> 1
   \<and> distinct (map p_taskKey (pendingFetches (run evs)))
   \<and> (taskKeyOf m d \<in> set (map p_taskKey (pendingFetches (run evs))) \<longrightarrow>
        handleTriggerDocAnalysis (run evs) m d a = ([], None)
        \<and> step (Trigger m d a) (run evs) = run evs)
   \<and> (n < length (pendingFetches (run evs)) \<longrightarrow>
        p_taskKey (pendingFetches (run evs) ! n) \<notin> analyzingTasks (step (Settle n r) (run evs))
        \<and> p_taskKey (pendingFetches (run evs) ! n)
             \<notin> set (map p_taskKey (pendingFetches (step (Settle n r) (run evs)))))
   \<and> p_taskKey p \<notin> analyzingTasks (fold apply_update (resumeTriggerDocAnalysis p outcome) s)"
proof (intro conjI impI)
  have inv: "tasks_inv (run evs)" by (rule tasks_inv_run)
  show "distinct (map p_taskKey (pendingFetches (run evs)))"
    using inv by (simp add: tasks_inv_def)
  show "length (filter (\<lambda>p. p_messageId p = m \<and> p_docId p = d) (pendingFetches (run evs))) \<le> 1"
    using inv by (rule one_pending_per_pair)
  show "p_taskKey p \<notin> analyzingTasks (fold apply_update (resumeTriggerDocAnalysis p outcome) s)"
    by (simp add: analyzingTasks_resume)
  {
    assume "taskKeyOf m d \<in> set (map p_taskKey (pendingFetches (run evs)))"
    with inv have "taskKeyOf m d \<in> analyzingTasks (run evs)"
      by (auto simp: tasks_inv_def)
    then show g: "handleTriggerDocAnalysis (run evs) m d a = ([], None)"
      by (rule trigger_guarded)
    show "step (Trigger m d a) (run evs) = run evs"
      using g by (rule step_noop)
  }
  {
    assume n: "n < length (pendingFetches (run evs))"
    then show "p_taskKey (pendingFetches (run evs) ! n)
        \<notin> analyzingTasks (step (Settle n r) (run evs))"
      by (simp add: Let_def analyzingTasks_resume)
    show "p_taskKey (pendingFetches (run evs) ! n)
        \<notin> set (map p_taskKey (pendingFetches (step (Settle n r) (run evs))))"
      using n inv nth_not_in_rest [of p_taskKey "pendingFetches (run evs)" n]
      by (simp add: Let_def pendingFetches_resume tasks_inv_def)
  }
qed

subsection \<open>A trigger that starts a fetch\<close>

lemma trigger_started:
  assumes "currentChatId_st s = Some A" and "A \<noteq> []"
    and "taskKeyOf m d \<notin> analyzingTasks s"
    and "find (\<lambda>x. doc_id x = d) (handbookDocs s) = Some doc"
  shows "handleTriggerDocAnalysis s m d a = ([TasksAdd (taskKeyOf m d)], Some (started A m d a doc))"
  using assms by (simp add: handleTriggerDocAnalysis_def started_def Let_def)

lemma step_Trigger_started:
  assumes "currentChatId_st s = Some A" and "A \<noteq> []"
    and "taskKeyOf m d \<notin> analyzingTasks s"
    and "find (\<lambda>x. doc_id x = d) (handbookDocs s) = Some doc"
  shows "step (Trigger m d a) s =
     s\<lparr>analyzingTasks := insert (taskKeyOf m d) (analyzingTasks s),
       pendingFetches := pendingFetches s @ [started A m d a doc]\<rparr>"
  using trigger_started [OF assms, of a] by simp

lemma step_Settle_last:
  assumes "pendingFetches s2 = ps @ [p]"
  shows "step (Settle (length ps) r) s2 =
     fold apply_update (resumeTriggerDocAnalysis p (Inr (getRelevanceHighlights r)))
       (s2\<lparr>pendingFetches := ps\<rparr>)"
  using assms by (simp add: Let_def)

lemma updateMessageHighlights_absent:
  "\<forall>c \<in> set cs. chat_id c \<noteq> A \<Longrightarrow> updateMessageHighlights A m d hs cs = cs"
  by (induction cs) (simp_all add: updateMessageHighlights_def)

lemma handleDeleteChat_absent: "\<forall>c \<in> set (handleDeleteChat A cs). chat_id c \<noteq> A"
  by (simp add: handleDeleteChat_def)

lemma example_state_facts:
  "currentChatId_st example_state = Some ''A''"
  "''A'' \<noteq> []"
  "taskKeyOf ''m1'' ''d1'' \<notin> analyzingTasks example_state"
  "find (\<lambda>x. doc_id x = ''d1'') (handbookDocs example_state) = Some example_doc"
  "pendingFetches example_state = []"
  by (simp_all add: example_state_def example_doc_def)

lemma updateMessageHighlights_nth:
  "i < length cs \<Longrightarrow>
   updateMessageHighlights A m d hs cs ! i =
     (if chat_id (cs ! i) \<noteq> A then cs ! i
      else (cs ! i)\<lparr>messages := map (writeEntry m d hs) (messages (cs ! i))\<rparr>)"
  by (simp add: updateMessageHighlights_def writeEntry_def)

lemma length_updateMessageHighlights:
  "length (updateMessageHighlights A m d hs cs) = length cs"
  by (simp add: updateMessageHighlights_def)

lemma writeEntry_other: "msg_id x \<noteq> m \<Longrightarrow> writeEntry m d hs x = x"
  by (simp add: writeEntry_def)

lemma writeEntry_same:
  "msg_id x = m \<Longrightarrow>
     writeEntry m d hs x = x\<lparr>highlights := highlights (writeEntry m d hs x)\<rparr>
     \<and> highlightsEntry (writeEntry m d hs x) d = Some hs
     \<and> (\<forall>d'. d' \<noteq> d \<longrightarrow> highlightsEntry (writeEntry m d hs x) d' = highlightsEntry x d')"
  by (simp add: writeEntry_def highlightsEntry_def split: option.splits)

lemma updateMessageHighlights_frame:
  assumes "cs' = updateMessageHighlights A m d hs cs"
  shows "length cs' = length cs
     \<and> (\<forall>i<length cs.
          (chat_id (cs ! i) \<noteq> A \<longrightarrow> cs' ! i = cs ! i)
        \<and> (chat_id (cs ! i) = A \<longrightarrow>
             cs' ! i = (cs ! i)\<lparr>messages := messages (cs' ! i)\<rparr>
           \<and> length (messages (cs' ! i)) = length (messages (cs ! i))
           \<and> (\<forall>j<length (messages (cs ! i)).
                (msg_id (messages (cs ! i) ! j) \<noteq> m \<longrightarrow>
                   messages (cs' ! i) ! j = messages (cs ! i) ! j)
              \<and> (msg_id (messages (cs ! i) ! j) = m \<longrightarrow>
                   messages (cs' ! i) ! j =
                     (messages (cs ! i) ! j)\<lparr>highlights := highlights (messages (cs' ! i) ! j)\<rparr>
                 \<and> highlightsEntry (messages (cs' ! i) ! j) d = Some hs
                 \<and> (\<forall>d'. d' \<noteq> d \<longrightarrow>
                       highlightsEntry (messages (cs' ! i) ! j) d' =
                       highlightsEntry (messages (cs ! i) ! j) d')))))"
proof (intro conjI allI impI)
  show "length cs' = length cs" by (simp add: assms length_updateMessageHighlights)
next
  fix i assume "i < length cs" and "chat_id (cs ! i) \<noteq> A"
  then show "cs' ! i = cs ! i" by (simp add: assms updateMessageHighlights_nth)
next
  fix i assume i: "i < length cs" and A: "chat_id (cs ! i) = A"
  then have eq: "cs' ! i = (cs ! i)\<lparr>messages := map (writeEntry m d hs) (messages (cs ! i))\<rparr>"
    by (simp add: assms updateMessageHighlights_nth)
  show "cs' ! i = (cs ! i)\<lparr>messages := messages (cs' ! i)\<rparr>" by (simp add: eq)
  show "length (messages (cs' ! i)) = length (messages (cs ! i))" by (simp add: eq)
  fix j assume j: "j < length (messages (cs ! i))"
  then have mj: "messages (cs' ! i) ! j = writeEntry m d hs (messages (cs ! i) ! j)"
    by (simp add: eq)
  {
    assume "msg_id (messages (cs ! i) ! j) \<noteq> m"
    then show "messages (cs' ! i) ! j = messages (cs ! i) ! j"
      by (simp add: mj writeEntry_other)
  }
  {
    assume same: "msg_id (messages (cs ! i) ! j) = m"
    show "messages (cs' ! i) ! j =
        (messages (cs ! i) ! j)\<lparr>highlights := highlights (messages (cs' ! i) ! j)\<rparr>"
      unfolding mj using writeEntry_same [OF same, of d hs] by blast
    show "highlightsEntry (messages (cs' ! i) ! j) d = Some hs"
      unfolding mj using writeEntry_same [OF same, of d hs] by blast
    fix d' assume "d' \<noteq> d"
    then show "highlightsEntry (messages (cs' ! i) ! j) d' =
        highlightsEntry (messages (cs ! i) ! j) d'"
      unfolding mj using writeEntry_same [OF same, of d hs] by blast
  }
qed

lemma example_switched_chats:
  "chats (step (SelectChat ''B'') (step (Trigger ''m1'' ''d1'' ''You get 25 days.'') example_state))
     = [chat_with ''A'' [example_message], chat_with ''B'' [example_message]]"
  unfolding step_Trigger_started [OF example_state_facts(1-4)]
  by (simp add: selectChat_def example_state_def chat_with_def)

text \<open>
  Claim C5 (stale-chat safety). A trigger starts a fetch while chat \<open>A\<close> is active, the
  user then selects chat \<open>B\<close>, and the fetch settles. The phrases are written by
  \<open>updateMessageHighlights\<close> for chat \<open>A\<close>, the chat captured at the trigger. Every chat
  whose id is not \<open>A\<close> is as before, \<open>B\<close> among them; in chat \<open>A\<close> every message
  with another id is as before, and the triggering message changes in its \<open>highlights\<close>
  only, where the entry of the document is the fetched list and every other entry is as
  before.
\<close>

theorem stale_chat_safety:
  assumes "currentChatId_st s = Some A" and "A \<noteq> []"
    and "taskKeyOf m d \<notin> analyzingTasks s"
    and "find (\<lambda>x. doc_id x = d) (handbookDocs s) = Some doc"
    and s2: "s2 = step (SelectChat B) (step (Trigger m d a) s)"
    and s3: "s3 = step (Settle (length (pendingFetches s)) r) s2"
  shows "currentChatId_st s2 = Some B
     \<and> chats s3 = updateMessageHighlights A m d (getRelevanceHighlights r) (chats s2)
     \<and> length (chats s3) = length (chats s2)
     \<and> (\<forall>i<length (chats s2).
          (chat_id (chats s2 ! i) \<noteq> A \<longrightarrow> chats s3 ! i = chats s2 ! i)
        \<and> (chat_id (chats s2 ! i) = A \<longrightarrow>
             chats s3 ! i = (chats s2 ! i)\<lparr>messages := messages (chats s3 ! i)\<rparr>
           \<and> length (messages (chats s3 ! i)) = length (messages (chats s2 ! i))
           \<and> (\<forall>j<length (messages (chats s2 ! i)).
                (msg_id (messages (chats s2 ! i) ! j) \<noteq> m \<longrightarrow>
                   messages (chats s3 ! i) ! j = messages (chats s2 ! i) ! j)
              \<and> (msg_id (messages (chats s2 ! i) ! j) = m \<longrightarrow>
                   messages (chats s3 ! i) ! j =
                     (messages (chats s2 ! i) ! j)
                       \<lparr>highlights := highlights (messages (chats s3 ! i) ! j)\<rparr>
                 \<and> highlightsEntry (messages (chats s3 ! i) ! j) d
                     = Some (getRelevanceHighlights r)
                 \<and> (\<forall>d'. d' \<noteq> d \<longrightarrow>
                       highlightsEntry (messages (chats s3 ! i) ! j) d' =
                       highlightsEntry (messages (chats s2 ! i) ! j) d')))))"
proof -
  let ?p = "started A m d a doc"
  have s2': "s2 = selectChat B (s\<lparr>analyzingTasks := insert (taskKeyOf m d) (analyzingTasks s),
       pendingFetches := pendingFetches s @ [?p]\<rparr>)"
    unfolding s2 step_Trigger_started [OF assms(1-4)] by simp
  have pf: "pendingFetches s2 = pendingFetches s @ [?p]" by (simp add: s2' selectChat_def)
  have s3': "s3 = fold apply_update (resumeTriggerDocAnalysis ?p (Inr (getRelevanceHighlights r)))
       (s2\<lparr>pendingFetches := pendingFetches s\<rparr>)"
    unfolding s3 by (rule step_Settle_last [OF pf])
  have c: "chats s3 = updateMessageHighlights A m d (getRelevanceHighlights r) (chats s2)"
    by (simp add: s3' started_def)
  have b: "currentChatId_st s2 = Some B" by (simp add: s2' selectChat_def)
  from b c updateMessageHighlights_frame [OF c] show ?thesis by blast
qed

theorem stale_chat_safety_witness:
  "currentChatId_st example_state = Some ''A'' \<and> ''A'' \<noteq> []
   \<and> taskKeyOf ''m1'' ''d1'' \<notin> analyzingTasks example_state
   \<and> find (\<lambda>x. doc_id x = ''d1'') (handbookDocs example_state) = Some example_doc
   \<and> currentChatId_st (step (SelectChat ''B'')
        (step (Trigger ''m1'' ''d1'' ''You get 25 days.'') example_state)) = Some ''B''
   \<and> highlightsEntry (messages (chats (step (Settle 0 (OkJson [''per year'']))
        (step (SelectChat ''B'') (step (Trigger ''m1'' ''d1'' ''You get 25 days.'') example_state)))
          ! 0) ! 0) ''d1'' = Some [''per year'']
   \<and> chats (step (Settle 0 (OkJson [''per year'']))
        (step (SelectChat ''B'') (step (Trigger ''m1'' ''d1'' ''You get 25 days.'') example_state)))
          ! 1 = chat_with ''B'' [example_message]"
proof -
  let ?s2 = "step (SelectChat ''B'') (step (Trigger ''m1'' ''d1'' ''You get 25 days.'') example_state)"
  let ?s3 = "step (Settle 0 (OkJson [''per year''])) ?s2"
  have e: "length (pendingFetches example_state) = 0" by (simp add: example_state_facts)
  note th = stale_chat_safety [OF example_state_facts(1-4) refl refl,
      of "''B''" "''You get 25 days.''" "OkJson [''per year'']", unfolded e example_switched_chats]
  have g: "getRelevanceHighlights (OkJson [''per year'']) = [''per year'']"
    by (simp add: getRelevanceHighlights_def)
  from th have b: "currentChatId_st ?s2 = Some ''B''" by blast
  from th have fr: "\<forall>i<length [chat_with ''A'' [example_message], chat_with ''B'' [example_message]].
          (chat_id ([chat_with ''A'' [example_message], chat_with ''B'' [example_message]] ! i) \<noteq> ''A''
             \<longrightarrow> chats ?s3 ! i = [chat_with ''A'' [example_message], chat_with ''B'' [example_message]] ! i)
        \<and> (chat_id ([chat_with ''A'' [example_message], chat_with ''B'' [example_message]] ! i) = ''A'' \<longrightarrow>
           (\<forall>j<length (messages ([chat_with ''A'' [example_message], chat_with ''B'' [example_message]] ! i)).
              (msg_id (messages ([chat_with ''A'' [example_message], chat_with ''B'' [example_message]] ! i) ! j) = ''m1'' \<longrightarrow>
                 highlightsEntry (messages (chats ?s3 ! i) ! j) ''d1''
                     = Some (getRelevanceHighlights (OkJson [''per year'']))))) "
    by blast
  from fr [rule_format, of 0] have a0: "highlightsEntry (messages (chats ?s3 ! 0) ! 0) ''d1'' = Some [''per year'']"
    by (simp add: chat_with_def example_message_def g)
  from fr [rule_format, of 1] have a1: "chats ?s3 ! 1 = chat_with ''B'' [example_message]"
    by (simp add: chat_with_def)
  from b a0 a1 example_state_facts(1-4) show ?thesis by simp
qed

text \<open>
  Claim C10 (owning chat deleted in flight). A trigger starts a fetch while chat \<open>A\<close> is
  active, chat \<open>A\<close> is deleted, and the fetch settles. The conversations after the
  completion are those before it: the write finds no chat and changes nothing. The key,
  still in \<open>analyzingTasks\<close> after the deletion, is removed, and the suspended call is
  gone.
\<close>

theorem deleted_chat_write_dropped:
  assumes "currentChatId_st s = Some A" and "A \<noteq> []"
    and "taskKeyOf m d \<notin> analyzingTasks s"
    and "find (\<lambda>x. doc_id x = d) (handbookDocs s) = Some doc"
    and s2: "s2 = step (DeleteChat A) (step (Trigger m d a) s)"
    and s3: "s3 = step (Settle (length (pendingFetches s)) r) s2"
  shows "taskKeyOf m d \<in> analyzingTasks s2
     \<and> chats s3 = chats s2
     \<and> taskKeyOf m d \<notin> analyzingTasks s3
     \<and> pendingFetches s3 = pendingFetches s"
proof -
  let ?p = "started A m d a doc"
  have s2': "s2 = s\<lparr>analyzingTasks := insert (taskKeyOf m d) (analyzingTasks s),
       pendingFetches := pendingFetches s @ [?p], chats := handleDeleteChat A (chats s)\<rparr>"
    unfolding s2 step_Trigger_started [OF assms(1-4)] by simp
  have pf: "pendingFetches s2 = pendingFetches s @ [?p]" by (simp add: s2')
  have s3': "s3 = fold apply_update (resumeTriggerDocAnalysis ?p (Inr (getRelevanceHighlights r)))
       (s2\<lparr>pendingFetches := pendingFetches s\<rparr>)"
    unfolding s3 by (rule step_Settle_last [OF pf])
  have ch: "chats s2 = handleDeleteChat A (chats s)" by (simp add: s2')
  have "chats s3 = updateMessageHighlights A m d (getRelevanceHighlights r) (chats s2)"
    by (simp add: s3' started_def)
  also have "\<dots> = chats s2"
    unfolding ch by (rule updateMessageHighlights_absent [OF handleDeleteChat_absent])
  finally have c: "chats s3 = chats s2" .
  have t2: "taskKeyOf m d \<in> analyzingTasks s2" by (simp add: s2')
  have t3: "taskKeyOf m d \<notin> analyzingTasks s3" by (simp add: s3' started_def)
  have p3: "pendingFetches s3 = pendingFetches s" by (simp add: s3')
  from c t2 t3 p3 show ?thesis by simp
qed

theorem deleted_chat_write_dropped_witness:
  "currentChatId_st example_state = Some ''A'' \<and> ''A'' \<noteq> []
   \<and> taskKeyOf ''m1'' ''d1'' \<notin> analyzingTasks example_state
   \<and> find (\<lambda>x. doc_id x = ''d1'') (handbookDocs example_state) = Some example_doc
   \<and> chats (step (Settle 0 (OkJson [''per year''])) (step (DeleteChat ''A'')
        (step (Trigger ''m1'' ''d1'' ''You get 25 days.'') example_state)))
      = chats (step (DeleteChat ''A'') (step (Trigger ''m1'' ''d1'' ''You get 25 days.'') example_state))
   \<and> taskKeyOf ''m1'' ''d1'' \<notin> analyzingTasks (step (Settle 0 (OkJson [''per year'']))
        (step (DeleteChat ''A'') (step (Trigger ''m1'' ''d1'' ''You get 25 days.'') example_state)))"
proof -
  have e: "length (pendingFetches example_state) = 0" by (simp add: example_state_facts)
  from deleted_chat_write_dropped [OF example_state_facts(1-4) refl refl,
      of "''You get 25 days.''" "OkJson [''per year'']"]
  show ?thesis unfolding e using example_state_facts(1-4) by simp
qed

subsection \<open>A trigger for a document that is not loaded\<close>

lemma trigger_missing_doc:
  assumes "find (\<lambda>x. doc_id x = d) (handbookDocs s) = None"
  shows "handleTriggerDocAnalysis s m d a =
     (if taskKeyOf m d \<in> analyzingTasks s
         \<or> (case currentChatId_st s of None \<Rightarrow> True | Some c \<Rightarrow> c = [])
      then ([], None)
      else ([TasksAdd (taskKeyOf m d), TasksDelete (taskKeyOf m d)], None))"
  using assms by (simp add: handleTriggerDocAnalysis_def Let_def)

lemma add_delete_noop:
  "k \<notin> analyzingTasks s \<Longrightarrow> fold apply_update [TasksAdd k, TasksDelete k] s = s"
  by simp

lemma example_missing:
  "find (\<lambda>x. doc_id x = ''d9'') (handbookDocs example_state) = None"
  "taskKeyOf ''m1'' ''d9'' \<notin> analyzingTasks example_state"
  by (simp_all add: example_state_def example_doc_def)

text \<open>
  Claim C9 (missing document). When the render that built the callback saw no document
  with the id, a call of the callback starts no fetch, leaves the conversations and the
  suspended calls as they are, and adds nothing to \<open>analyzingTasks\<close>, whatever the latest
  state is. Made after the latest state was rendered, the call leaves the state as it is.
  The two updaters that the call queues, before and after the lookup of the document, run
  together: no state of the component has the key because of this call.
\<close>

theorem missing_document_noop:
  assumes "find (\<lambda>x. doc_id x = d) (handbookDocs captured) = None"
  shows "snd (handleTriggerDocAnalysis captured m d a) = None
     \<and> pendingFetches (triggerCall captured m d a s) = pendingFetches s
     \<and> chats (triggerCall captured m d a s) = chats s
     \<and> analyzingTasks (triggerCall captured m d a s) \<subseteq> analyzingTasks s
     \<and> step (Trigger m d a) captured = captured"
proof (cases "taskKeyOf m d \<in> analyzingTasks captured
         \<or> (case currentChatId_st captured of None \<Rightarrow> True | Some c \<Rightarrow> c = [])")
  case True
  then have "handleTriggerDocAnalysis captured m d a = ([], None)"
    using trigger_missing_doc [OF assms, of m a] by simp
  then show ?thesis by simp
next
  case False
  then have h: "handleTriggerDocAnalysis captured m d a =
      ([TasksAdd (taskKeyOf m d), TasksDelete (taskKeyOf m d)], None)"
    using trigger_missing_doc [OF assms, of m a] by simp
  from False have k: "taskKeyOf m d \<notin> analyzingTasks captured" by simp
  have "step (Trigger m d a) captured = captured"
    using add_delete_noop [OF k] by (simp add: h)
  moreover have "analyzingTasks (triggerCall captured m d a s) \<subseteq> analyzingTasks s"
    by (auto simp: h)
  ultimately show ?thesis by (simp add: h)
qed

theorem missing_document_noop_witness:
  "find (\<lambda>x. doc_id x = ''d9'') (handbookDocs example_state) = None
   \<and> currentChatId_st example_state = Some ''A'' \<and> ''A'' \<noteq> []
   \<and> taskKeyOf ''m1'' ''d9'' \<notin> analyzingTasks example_state
   \<and> snd (handleTriggerDocAnalysis example_state ''m1'' ''d9'' ''You get 25 days.'') = None
   \<and> step (Trigger ''m1'' ''d9'' ''You get 25 days.'') example_state = example_state
   \<and> taskKeyOf ''m1'' ''d9''
        \<notin> analyzingTasks (step (Trigger ''m1'' ''d9'' ''You get 25 days.'') example_state)"
proof -
  note th = missing_document_noop [OF example_missing(1), of "''m1''" "''You get 25 days.''"
      example_state]
  from th have e: "step (Trigger ''m1'' ''d9'' ''You get 25 days.'') example_state = example_state"
    by blast
  from th have n: "snd (handleTriggerDocAnalysis example_state ''m1'' ''d9'' ''You get 25 days.'') = None"
    by blast
  have "taskKeyOf ''m1'' ''d9''
        \<notin> analyzingTasks (step (Trigger ''m1'' ''d9'' ''You get 25 days.'') example_state)"
    unfolding e by (rule example_missing(2))
  with e n example_missing example_state_facts(1,2) show ?thesis by blast
qed

subsection \<open>Two calls of the callback of one render\<close>


subsection \<open>A fetch that fails\<close>

lemma failed_fetch_state:
  "step (Settle 0 NetworkError) (step (Trigger ''m1'' ''d1'' ''You get 25 days.'') example_state)
   = example_state\<lparr>chats := updateMessageHighlights ''A'' ''m1'' ''d1'' [] (chats example_state)\<rparr>"
  unfolding step_Trigger_started [OF example_state_facts(1-4)]
  by (simp add: Let_def example_state_facts started_def getRelevanceHighlights_def example_state_def)

text \<open>
  Claim C3 (failure leaves the document unresolved) does not hold of the code. Before the
  trigger the message has no entry for the document and the viewer offers the highlight
  action. The request fails, \<open>getRelevanceHighlights\<close> catches the failure and resolves
  to the empty array, and the continuation stores it: the message of chat \<open>A\<close> now has
  the entry \<open>[]\<close> for the document, and the viewer shows the highlights as active, with
  no action to retry. Only a rejected promise, which \<open>getRelevanceHighlights\<close> never
  gives, would skip the write.
\<close>

theorem failed_fetch_writes_empty_entry:
  "highlightsEntry example_message ''d1'' = None
   \<and> highlightControl (taskKeyOf ''m1'' ''d1'' \<in> analyzingTasks example_state)
        (relevanceHighlights (Some (chats example_state ! 0)) ''m1'' ''d1'') = HighlightWithAI
   \<and> getRelevanceHighlights NetworkError = []
   \<and> map (\<lambda>c. map (\<lambda>x. highlightsEntry x ''d1'') (messages c))
        (chats (step (Settle 0 NetworkError)
           (step (Trigger ''m1'' ''d1'' ''You get 25 days.'') example_state)))
      = [[Some []], [None]]
   \<and> highlightControl
        (taskKeyOf ''m1'' ''d1'' \<in> analyzingTasks (step (Settle 0 NetworkError)
           (step (Trigger ''m1'' ''d1'' ''You get 25 days.'') example_state)))
        (relevanceHighlights (Some (chats (step (Settle 0 NetworkError)
           (step (Trigger ''m1'' ''d1'' ''You get 25 days.'') example_state)) ! 0)) ''m1'' ''d1'')
      = HighlightsActive
   \<and> resumeTriggerDocAnalysis p (Inl e) = [TasksDelete (p_taskKey p)]"
  unfolding failed_fetch_state
  by (simp add: example_state_def chat_with_def example_message_def highlightsEntry_def
      updateMessageHighlights_def highlightControl_def relevanceHighlights_def contextMessage_def
      getRelevanceHighlights_def taskKeyOf_def readHighlights_def objectPrototypeKeys_def)

end
